theory Spec2Isabelle
  imports Main
begin

section \<open>The line-preserving chunker of news parsing utilities\<close>

text \<open>
  The development embeds \<^verbatim>\<open>split_string_by_lines\<close> of
  \<^verbatim>\<open>src/news_parsing_utils.py\<close> (lines 93 to 148). A Python \<^verbatim>\<open>str\<close> is a
  sequence of Unicode code points and \<^verbatim>\<open>len\<close> counts code points, so a string is
  a list of code points (natural numbers); a Python \<^verbatim>\<open>int\<close> is unbounded, so
  \<^verbatim>\<open>max_length\<close> is an \<open>int\<close>.
\<close>

type_synonym pystr = "nat list"

subsection \<open>The built-in \<^verbatim>\<open>str.splitlines(keepends=True)\<close>\<close>

text \<open>
  The line boundaries of \<^verbatim>\<open>str.splitlines\<close>: LF, VT, FF, CR, FS, GS, RS, NEL,
  LINE SEPARATOR and PARAGRAPH SEPARATOR; the pair CR LF is one boundary.
\<close>

definition LF :: nat where "LF = 10"
definition CR :: nat where "CR = 13"

definition is_linebreak :: "nat \<Rightarrow> bool" where
  "is_linebreak c \<longleftrightarrow> c \<in> {10, 11, 12, 13, 28, 29, 30, 133, 8232, 8233}"

text \<open>
  \<open>splitlines_from cur s\<close> scans \<open>s\<close> with the characters of the line read so far in
  \<open>cur\<close>. A line ends after its terminator, which stays in the line; text after the
  last terminator is a last line without one; no line is produced for an empty rest.
\<close>

fun splitlines_from :: "pystr \<Rightarrow> pystr \<Rightarrow> pystr list" where
  "splitlines_from cur [] = (if cur \<noteq> [] then [cur] else [])"
| "splitlines_from cur [c] =
     (if is_linebreak c then (cur @ [c]) # splitlines_from [] []
      else splitlines_from (cur @ [c]) [])"
| "splitlines_from cur (c # d # rest) =
     (if c = CR \<and> d = LF then (cur @ [c, d]) # splitlines_from [] rest
      else if is_linebreak c then (cur @ [c]) # splitlines_from [] (d # rest)
      else splitlines_from (cur @ [c]) (d # rest))"

definition splitlines_keepends :: "pystr \<Rightarrow> pystr list" where
  "splitlines_keepends s = splitlines_from [] s"

subsection \<open>The loop of \<^verbatim>\<open>split_string_by_lines\<close>\<close>

text \<open>
  The function body has no \<^verbatim>\<open>raise\<close> statement; the only error of the chunker
  that the specification names is a precondition error, kept here so that the result
  type can say whether one is ever produced.
\<close>

datatype error = PreconditionError

text \<open>
  The loop state is the pair of the two variables the loop assigns:
  \<^verbatim>\<open>chunks\<close> and \<^verbatim>\<open>current_chunk\<close>. \<open>flush\<close> is the statement
  \<^verbatim>\<open>if current_chunk: chunks.append(current_chunk)\<close>, which occurs three times.
\<close>

definition flush :: "pystr list \<Rightarrow> pystr \<Rightarrow> pystr list" where
  "flush chunks current_chunk =
     (if current_chunk \<noteq> [] then chunks @ [current_chunk] else chunks)"

fun for_lines :: "int \<Rightarrow> pystr list \<Rightarrow> pystr \<Rightarrow> pystr list \<Rightarrow> pystr list \<times> pystr" where
  "for_lines max_length chunks current_chunk [] = (chunks, current_chunk)"
| "for_lines max_length chunks current_chunk (line # lines) =
     (if int (length line) \<ge> max_length then
        for_lines max_length (flush chunks current_chunk @ [line]) [] lines
      else if int (length current_chunk) + int (length line) \<ge> max_length then
        for_lines max_length (flush chunks current_chunk) line lines
      else
        for_lines max_length chunks (current_chunk @ line) lines)"

definition split_string_by_lines :: "pystr \<Rightarrow> int \<Rightarrow> error + pystr list" where
  "split_string_by_lines long_string max_length =
     (let lines = splitlines_keepends long_string;
          (chunks, current_chunk) = for_lines max_length [] [] lines
      in Inr (flush chunks current_chunk))"

subsection \<open>Auxiliary definitions for the proofs\<close>

definition flush_run :: "pystr list list \<Rightarrow> pystr list \<Rightarrow> pystr list list" where
  "flush_run runs run = (if concat run \<noteq> [] then runs @ [run] else runs)"

fun runs_from :: "int \<Rightarrow> pystr list list \<Rightarrow> pystr list \<Rightarrow> pystr list \<Rightarrow> pystr list list" where
  "runs_from max_length runs run [] = flush_run runs run"
| "runs_from max_length runs run (line # lines) =
     (if int (length line) \<ge> max_length then
        runs_from max_length (flush_run runs run @ [[line]]) [] lines
      else if int (length (concat run)) + int (length line) \<ge> max_length then
        runs_from max_length (flush_run runs run) [line] lines
      else
        runs_from max_length runs (run @ [line]) lines)"

definition valid_run :: "int \<Rightarrow> pystr list \<Rightarrow> bool" where
  "valid_run max_length run \<longleftrightarrow>
     int (length (concat run)) < max_length \<or> (length run = 1 \<and> max_length \<le> int (length (hd run)))"

definition chunks_from :: "int \<Rightarrow> pystr list \<Rightarrow> pystr \<Rightarrow> pystr list \<Rightarrow> pystr list" where
  "chunks_from max_length chunks current_chunk lines =
     (let (chunks', current_chunk') = for_lines max_length chunks current_chunk lines
      in flush chunks' current_chunk')"

definition full_pair :: "int \<Rightarrow> pystr \<Rightarrow> pystr \<Rightarrow> bool" where
  "full_pair m a b \<longleftrightarrow> m \<le> int (length a) + int (length b)"

definition adj_inv :: "int \<Rightarrow> pystr list \<Rightarrow> pystr \<Rightarrow> bool" where
  "adj_inv m chunks cur \<longleftrightarrow>
     successively (full_pair m) chunks \<and> (chunks \<noteq> [] \<longrightarrow> m \<le> int (length (last chunks)) + int (length cur))"

fun chunk_count :: "int \<Rightarrow> nat \<Rightarrow> nat list \<Rightarrow> nat" where
  "chunk_count m c [] = (if c > 0 then 1 else 0)"
| "chunk_count m c (n # ns) =
     (if int n \<ge> m then (if c > 0 then 1 else 0) + 1 + chunk_count m 0 ns
      else if int c + int n \<ge> m then (if c > 0 then 1 else 0) + chunk_count m n ns
      else chunk_count m (c + n) ns)"

section \<open>Lemmas\<close>

lemma split_string_by_lines_eq:
  "split_string_by_lines s m = Inr (chunks_from m [] [] (splitlines_keepends s))"
  by (simp add: split_string_by_lines_def chunks_from_def Let_def split_beta)

lemma chunks_from_Nil: "chunks_from m chunks cur [] = flush chunks cur"
  by (simp add: chunks_from_def)

lemma chunks_from_Cons:
  "chunks_from m chunks cur (line # lines) =
     (if int (length line) \<ge> m then chunks_from m (flush chunks cur @ [line]) [] lines
      else if int (length cur) + int (length line) \<ge> m then chunks_from m (flush chunks cur) line lines
      else chunks_from m chunks (cur @ line) lines)"
  by (simp add: chunks_from_def)

lemma flush_map_concat: "flush (map concat runs) (concat run) = map concat (flush_run runs run)"
  by (simp add: flush_def flush_run_def)

lemma chunks_from_runs:
  "chunks_from m (map concat runs) (concat run) lines = map concat (runs_from m runs run lines)"
proof (induction lines arbitrary: runs run)
  case Nil
  show ?case by (simp add: chunks_from_Nil flush_map_concat)
next
  case (Cons line lines)
  show ?case
    using Cons.IH[of "flush_run runs run @ [[line]]" "[]"]
          Cons.IH[of "flush_run runs run" "[line]"]
          Cons.IH[of runs "run @ [line]"]
    by (simp add: chunks_from_Cons flush_map_concat)
qed

lemma concat_flush_run: "[] \<notin> set run \<Longrightarrow> concat (flush_run runs run) = concat runs @ run"
  by (cases run) (auto simp add: flush_run_def)

lemma concat_runs_from:
  "[] \<notin> set run \<Longrightarrow> [] \<notin> set lines \<Longrightarrow>
   concat (runs_from m runs run lines) = concat runs @ run @ lines"
  by (induction lines arbitrary: runs run) (simp_all add: concat_flush_run)

lemma valid_flush_run:
  "\<forall>r\<in>set runs. valid_run m r \<Longrightarrow> int (length (concat run)) < m \<Longrightarrow>
   \<forall>r\<in>set (flush_run runs run). valid_run m r"
  by (simp add: flush_run_def valid_run_def)

lemma valid_runs_from:
  "0 < m \<Longrightarrow> \<forall>r\<in>set runs. valid_run m r \<Longrightarrow> int (length (concat run)) < m \<Longrightarrow>
   \<forall>r\<in>set (runs_from m runs run lines). valid_run m r"
proof (induction lines arbitrary: runs run)
  case Nil
  then show ?case using valid_flush_run[of runs m run] by simp
next
  case (Cons line lines)
  have fl: "\<forall>r\<in>set (flush_run runs run). valid_run m r"
    using Cons.prems(2,3) by (rule valid_flush_run)
  show ?case
  proof (cases "m \<le> int (length line)")
    case True
    have v: "\<forall>r\<in>set (flush_run runs run @ [[line]]). valid_run m r"
      using fl True by (simp add: valid_run_def)
    have e: "int (length (concat ([]::pystr list))) < m" using Cons.prems(1) by simp
    have "\<forall>r\<in>set (runs_from m (flush_run runs run @ [[line]]) [] lines). valid_run m r"
      using Cons.prems(1) v e by (rule Cons.IH)
    then show ?thesis using True by simp
  next
    case False
    show ?thesis
    proof (cases "m \<le> int (length (concat run)) + int (length line)")
      case True
      have e: "int (length (concat [line])) < m" using False by simp
      have "\<forall>r\<in>set (runs_from m (flush_run runs run) [line] lines). valid_run m r"
        using Cons.prems(1) fl e by (rule Cons.IH)
      then show ?thesis using True False by simp
    next
      case nofl: False
      have e: "int (length (concat (run @ [line]))) < m" using nofl by simp
      have "\<forall>r\<in>set (runs_from m runs (run @ [line]) lines). valid_run m r"
        using Cons.prems(1,2) e by (rule Cons.IH)
      then show ?thesis using nofl False by simp
    qed
  qed
qed

lemma nonempty_flush_run:
  "\<forall>r\<in>set runs. concat r \<noteq> [] \<Longrightarrow> \<forall>r\<in>set (flush_run runs run). concat r \<noteq> []"
  by (simp add: flush_run_def)

lemma nonempty_runs_from:
  "[] \<notin> set lines \<Longrightarrow> \<forall>r\<in>set runs. concat r \<noteq> [] \<Longrightarrow>
   \<forall>r\<in>set (runs_from m runs run lines). concat r \<noteq> []"
proof (induction lines arbitrary: runs run)
  case Nil
  then show ?case using nonempty_flush_run[of runs run] by simp
next
  case (Cons line lines)
  have fl: "\<forall>r\<in>set (flush_run runs run). concat r \<noteq> []"
    using Cons.prems(2) by (rule nonempty_flush_run)
  have ne: "line \<noteq> []" and nes: "[] \<notin> set lines" using Cons.prems(1) by auto
  have v: "\<forall>r\<in>set (flush_run runs run @ [[line]]). concat r \<noteq> []"
    using fl ne by simp
  have a: "\<forall>r\<in>set (runs_from m (flush_run runs run @ [[line]]) [] lines). concat r \<noteq> []"
    using nes v by (rule Cons.IH)
  have b: "\<forall>r\<in>set (runs_from m (flush_run runs run) [line] lines). concat r \<noteq> []"
    using nes fl by (rule Cons.IH)
  have c: "\<forall>r\<in>set (runs_from m runs (run @ [line]) lines). concat r \<noteq> []"
    using nes Cons.prems(2) by (rule Cons.IH)
  show ?case
  proof (cases "m \<le> int (length line)")
    case True
    then show ?thesis using a by (simp only: runs_from.simps if_True)
  next
    case False
    show ?thesis
    proof (cases "m \<le> int (length (concat run)) + int (length line)")
      case True
      then show ?thesis using b False by (simp only: runs_from.simps if_True if_False)
    next
      case nofl: False
      then show ?thesis using c False by (simp only: runs_from.simps if_False)
    qed
  qed
qed

lemma concat_splitlines_from: "concat (splitlines_from cur s) = cur @ s"
  by (induction cur s rule: splitlines_from.induct) simp_all

lemma nonempty_splitlines_from: "[] \<notin> set (splitlines_from cur s)"
  by (induction cur s rule: splitlines_from.induct) simp_all

lemma splitlines_from_plain:
  "\<not> is_linebreak c \<Longrightarrow> splitlines_from cur (c # s) = splitlines_from (cur @ [c]) s"
  by (cases s) (auto simp add: is_linebreak_def CR_def)

lemma splitlines_from_LF:
  "splitlines_from cur (LF # s) = (cur @ [LF]) # splitlines_from [] s"
  by (cases s) (simp_all add: is_linebreak_def CR_def LF_def)

lemma splitlines_from_body:
  "\<forall>c\<in>set body. \<not> is_linebreak c \<Longrightarrow>
   splitlines_from cur (body @ LF # s) = (cur @ body @ [LF]) # splitlines_from [] s"
proof (induction body arbitrary: cur)
  case Nil
  show ?case by (simp add: splitlines_from_LF)
next
  case (Cons c body)
  have "\<not> is_linebreak c" using Cons.prems by simp
  then have "splitlines_from cur ((c # body) @ LF # s) = splitlines_from (cur @ [c]) (body @ LF # s)"
    by (simp add: splitlines_from_plain)
  also have "\<dots> = ((cur @ [c]) @ body @ [LF]) # splitlines_from [] s"
    using Cons.prems by (intro Cons.IH) simp
  finally show ?case by simp
qed

lemma adj_flush: "adj_inv m chunks cur \<Longrightarrow> successively (full_pair m) (flush chunks cur)"
  by (auto simp add: adj_inv_def flush_def successively_append_iff full_pair_def)

lemma adj_flush_last:
  "adj_inv m chunks cur \<Longrightarrow> m \<le> int (length cur) + int (length line) \<Longrightarrow>
   adj_inv m (flush chunks cur) line"
  using adj_flush[of m chunks cur]
  by (auto simp add: adj_inv_def flush_def)

lemma adj_oversized:
  "adj_inv m chunks cur \<Longrightarrow> m \<le> int (length line) \<Longrightarrow>
   adj_inv m (flush chunks cur @ [line]) []"
proof -
  assume a: "adj_inv m chunks cur" and b: "m \<le> int (length line)"
  have "adj_inv m (flush chunks cur) line" using a b by (intro adj_flush_last) simp_all
  then show ?thesis using b
    by (auto simp add: adj_inv_def successively_append_iff full_pair_def)
qed

lemma adj_append:
  "adj_inv m chunks cur \<Longrightarrow> adj_inv m chunks (cur @ line)"
  by (auto simp add: adj_inv_def)

lemma adj_chunks_from:
  "adj_inv m chunks cur \<Longrightarrow> successively (full_pair m) (chunks_from m chunks cur lines)"
proof (induction lines arbitrary: chunks cur)
  case Nil
  then show ?case by (simp add: chunks_from_Nil adj_flush)
next
  case (Cons line lines)
  show ?case
  proof (cases "m \<le> int (length line)")
    case True
    have "adj_inv m (flush chunks cur @ [line]) []" using Cons.prems True by (rule adj_oversized)
    then have "successively (full_pair m) (chunks_from m (flush chunks cur @ [line]) [] lines)"
      by (rule Cons.IH)
    then show ?thesis using True by (simp add: chunks_from_Cons)
  next
    case False
    show ?thesis
    proof (cases "m \<le> int (length cur) + int (length line)")
      case True
      have "adj_inv m (flush chunks cur) line" using Cons.prems True by (rule adj_flush_last)
      then have "successively (full_pair m) (chunks_from m (flush chunks cur) line lines)"
        by (rule Cons.IH)
      then show ?thesis using True False by (simp add: chunks_from_Cons)
    next
      case nofl: False
      have "adj_inv m chunks (cur @ line)" using Cons.prems by (rule adj_append)
      then have "successively (full_pair m) (chunks_from m chunks (cur @ line) lines)"
        by (rule Cons.IH)
      then show ?thesis using nofl False by (simp add: chunks_from_Cons)
    qed
  qed
qed

lemma successively_nth:
  "successively P xs \<Longrightarrow> Suc i < length xs \<Longrightarrow> P (xs ! i) (xs ! Suc i)"
proof (induction P xs arbitrary: i rule: successively.induct)
  case (3 P x y xs)
  then show ?case by (cases i) simp_all
qed simp_all

lemma length_flush: "length (flush chunks cur) = length chunks + (if length cur > 0 then 1 else 0)"
  by (simp add: flush_def)

lemma length_chunks_from:
  "length (chunks_from m chunks cur lines) = length chunks + chunk_count m (length cur) (map length lines)"
proof (induction lines arbitrary: chunks cur)
  case Nil
  show ?case by (simp add: chunks_from_Nil length_flush)
next
  case (Cons line lines)
  show ?case
    using Cons.IH[of "flush chunks cur @ [line]" "[]"] Cons.IH[of "flush chunks cur" line]
      Cons.IH[of chunks "cur @ line"]
    by (simp add: chunks_from_Cons length_flush)
qed

lemma chunk_count_fits:
  "int c + int (sum_list ns) < m \<Longrightarrow> chunk_count m c (ns @ rest) = chunk_count m (c + sum_list ns) rest"
proof (induction ns arbitrary: c)
  case Nil
  show ?case by simp
next
  case (Cons n ns)
  have a: "\<not> m \<le> int n" and b: "\<not> m \<le> int c + int n" using Cons.prems by simp_all
  have "int (c + n) + int (sum_list ns) < m" using Cons.prems by simp
  then have "chunk_count m (c + n) (ns @ rest) = chunk_count m (c + n + sum_list ns) rest"
    by (rule Cons.IH)
  then show ?case using a b by (simp add: add.assoc)
qed

lemma chunk_count_mono:
  "c \<le> c' \<Longrightarrow> int c' < m \<Longrightarrow>
   chunk_count m c ns \<le> chunk_count m c' ns \<and> chunk_count m c' ns \<le> Suc (chunk_count m c ns)"
proof (induction ns arbitrary: c c')
  case Nil
  then show ?case by simp
next
  case (Cons n ns)
  show ?case
  proof (cases "m \<le> int n")
    case True
    then show ?thesis using Cons.prems by simp
  next
    case small: False
    show ?thesis
    proof (cases "m \<le> int c + int n")
      case True
      then have "m \<le> int c' + int n" using Cons.prems by simp
      then show ?thesis using True small Cons.prems by simp
    next
      case nofl: False
      show ?thesis
      proof (cases "m \<le> int c' + int n")
        case True
        have "n \<le> c + n" by simp
        moreover have "int (c + n) < m" using nofl by simp
        ultimately have "chunk_count m n ns \<le> chunk_count m (c + n) ns \<and>
            chunk_count m (c + n) ns \<le> Suc (chunk_count m n ns)"
          by (rule Cons.IH)
        moreover have "c' > 0" using True small by simp
        ultimately show ?thesis using True small nofl by simp
      next
        case False
        have "c + n \<le> c' + n" using Cons.prems by simp
        moreover have "int (c' + n) < m" using False by simp
        ultimately have "chunk_count m (c + n) ns \<le> chunk_count m (c' + n) ns \<and>
            chunk_count m (c' + n) ns \<le> Suc (chunk_count m (c + n) ns)"
          by (rule Cons.IH)
        then show ?thesis using False small nofl by simp
      qed
    qed
  qed
qed

lemma chunk_count_le_partition:
  "0 < m \<Longrightarrow> \<forall>r\<in>set runs. valid_run m r \<Longrightarrow>
   chunk_count m 0 (map length (concat runs)) \<le> length runs"
proof (induction runs)
  case Nil
  show ?case by simp
next
  case (Cons r runs)
  have IH: "chunk_count m 0 (map length (concat runs)) \<le> length runs"
    using Cons.prems by (intro Cons.IH) simp_all
  have v: "valid_run m r" using Cons.prems by simp
  let ?rest = "map length (concat runs)"
  show ?case
  proof (cases "int (length (concat r)) < m")
    case True
    have sl: "sum_list (map length r) = length (concat r)" by (simp add: length_concat)
    have "int 0 + int (sum_list (map length r)) < m" using True sl by simp
    then have "chunk_count m 0 (map length r @ ?rest) = chunk_count m (0 + sum_list (map length r)) ?rest"
      by (rule chunk_count_fits)
    moreover have "chunk_count m (length (concat r)) ?rest \<le> Suc (chunk_count m 0 ?rest)"
      using chunk_count_mono[of 0 "length (concat r)" m ?rest] True by simp
    ultimately show ?thesis using IH sl by simp
  next
    case False
    then obtain l where r: "r = [l]" and big: "m \<le> int (length l)"
      using v by (cases r) (auto simp add: valid_run_def)
    show ?thesis using IH r big by simp
  qed
qed

lemma concat_chunks_from:
  "concat (chunks_from m chunks cur lines) = concat chunks @ cur @ concat lines"
  by (induction lines arbitrary: chunks cur) (simp_all add: chunks_from_Nil chunks_from_Cons flush_def)

lemma concat_splitlines_keepends: "concat (splitlines_keepends s) = s"
  by (simp add: splitlines_keepends_def concat_splitlines_from)

lemma nonempty_splitlines_keepends: "[] \<notin> set (splitlines_keepends s)"
  by (simp add: splitlines_keepends_def nonempty_splitlines_from)

lemma runs_of_lines:
  assumes "0 < m" and "[] \<notin> set lines"
  shows "concat (runs_from m [] [] lines) = lines"
    and "map concat (runs_from m [] [] lines) = chunks_from m [] [] lines"
    and "\<forall>r\<in>set (runs_from m [] [] lines). valid_run m r"
    and "\<forall>r\<in>set (runs_from m [] [] lines). concat r \<noteq> []"
proof -
  show "concat (runs_from m [] [] lines) = lines"
    using concat_runs_from[of "[]" lines m "[]"] assms(2) by simp
  show "map concat (runs_from m [] [] lines) = chunks_from m [] [] lines"
    using chunks_from_runs[of m "[]" "[]" lines] by simp
  show "\<forall>r\<in>set (runs_from m [] [] lines). valid_run m r"
    using valid_runs_from[of m "[]" "[]" lines] assms(1) by simp
  show "\<forall>r\<in>set (runs_from m [] [] lines). concat r \<noteq> []"
    using nonempty_runs_from[of lines "[]" m "[]"] assms(2) by simp
qed

lemma pair_le_sum_list:
  "Suc i < length ns \<Longrightarrow> ns ! i + ns ! Suc i \<le> sum_list (ns :: nat list)"
proof (induction ns arbitrary: i)
  case Nil
  then show ?case by simp
next
  case (Cons n ns)
  show ?case
  proof (cases i)
    case 0
    then show ?thesis using Cons.prems by (cases ns) simp_all
  next
    case (Suc j)
    then have "ns ! j + ns ! Suc j \<le> sum_list ns" using Cons.prems by (intro Cons.IH) simp
    then show ?thesis using Suc by simp
  qed
qed

lemma pair_le_length_concat:
  "Suc i < length r \<Longrightarrow> length (r ! i) + length (r ! Suc i) \<le> length (concat r)"
  using pair_le_sum_list[of i "map length r"] by (simp add: length_concat)

lemma member_le_length_concat: "l \<in> set r \<Longrightarrow> length l \<le> length (concat r)"
  by (induction r) auto

lemma chunks_from_nonpositive:
  "m \<le> 0 \<Longrightarrow> chunks_from m chunks [] lines = chunks @ lines"
  by (induction lines arbitrary: chunks) (simp_all add: chunks_from_Nil chunks_from_Cons flush_def)

lemma splitlines_three_lines:
  assumes "\<forall>c\<in>set a. \<not> is_linebreak c" and "\<forall>c\<in>set b. \<not> is_linebreak c"
    and "\<forall>c\<in>set d. \<not> is_linebreak c"
  shows "splitlines_keepends (a @ LF # b @ LF # d @ [LF]) = [a @ [LF], b @ [LF], d @ [LF]]"
proof -
  have "splitlines_from [] (a @ LF # (b @ LF # (d @ LF # []))) =
        ([] @ a @ [LF]) # splitlines_from [] (b @ LF # (d @ LF # []))"
    using assms(1) by (rule splitlines_from_body)
  also have "splitlines_from [] (b @ LF # (d @ LF # [])) = ([] @ b @ [LF]) # splitlines_from [] (d @ LF # [])"
    using assms(2) by (rule splitlines_from_body)
  also have "splitlines_from [] (d @ LF # []) = ([] @ d @ [LF]) # splitlines_from [] []"
    using assms(3) by (rule splitlines_from_body)
  finally show ?thesis by (simp add: splitlines_keepends_def)
qed

lemma splitlines_two_lines:
  assumes "\<forall>c\<in>set a. \<not> is_linebreak c" and "\<forall>c\<in>set b. \<not> is_linebreak c"
  shows "splitlines_keepends (a @ LF # b @ [LF]) = [a @ [LF], b @ [LF]]"
proof -
  have "splitlines_from [] (a @ LF # (b @ LF # [])) =
        ([] @ a @ [LF]) # splitlines_from [] (b @ LF # [])"
    using assms(1) by (rule splitlines_from_body)
  also have "splitlines_from [] (b @ LF # []) = ([] @ b @ [LF]) # splitlines_from [] []"
    using assms(2) by (rule splitlines_from_body)
  finally show ?thesis by (simp add: splitlines_keepends_def)
qed

lemma mixed_example:
  assumes "\<forall>c\<in>set a. \<not> is_linebreak c" and "\<forall>c\<in>set big. \<not> is_linebreak c"
    and "\<forall>c\<in>set b. \<not> is_linebreak c"
    and "length a + 1 < 4096" and "length big + 1 = 5000" and "length b + 1 < 4096"
  shows "split_string_by_lines (a @ [LF] @ big @ [LF] @ b @ [LF]) 4096
           = Inr [a @ [LF], big @ [LF], b @ [LF]]"
  using assms(4,5,6)
  by (simp add: split_string_by_lines_eq splitlines_three_lines[OF assms(1,2,3)]
      chunks_from_Cons chunks_from_Nil flush_def)

lemma two_lines_at_limit:
  assumes "0 < m" and "l1 \<noteq> []" and "l2 \<noteq> []" and "int (length l1) + int (length l2) = m"
  shows "chunks_from m [] [] [l1, l2] = [l1, l2]"
  using assms by (simp add: chunks_from_Cons chunks_from_Nil flush_def)

section \<open>Properties of the chunker\<close>

text \<open>
  Claim C1 (round-trip). For every input string and every positive limit,
  \<^verbatim>\<open>split_string_by_lines\<close> returns a list of chunks, and concatenating the
  chunks in order gives back exactly the input string.
\<close>

theorem split_roundtrip:
  "0 < max_length \<Longrightarrow>
   \<exists>chunks. split_string_by_lines text max_length = Inr chunks \<and> concat chunks = text"
  by (simp add: split_string_by_lines_eq concat_chunks_from concat_splitlines_keepends)

theorem split_roundtrip_witness:
  "split_string_by_lines [97, 98, 10, 99, 100, 101, 102, 103, 104, 10, 105, 10, 106] 4
     = Inr [[97, 98, 10], [99, 100, 101, 102, 103, 104, 10], [105, 10, 106]]
   \<and> (\<exists>chunks. split_string_by_lines [97, 98, 10, 99, 100, 101, 102, 103, 104, 10, 105, 10, 106] 4
          = Inr chunks
        \<and> concat chunks = [97, 98, 10, 99, 100, 101, 102, 103, 104, 10, 105, 10, 106])"
  using split_roundtrip [of 4 "[97, 98, 10, 99, 100, 101, 102, 103, 104, 10, 105, 10, 106]"]
  by (simp add: split_string_by_lines_def splitlines_keepends_def is_linebreak_def
      CR_def LF_def flush_def)

text \<open>
  Claim C2 (size invariant). For every input string and every positive limit, the
  returned chunks are the concatenations of consecutive runs of the input's lines, and
  every run either has total length strictly below the limit or is exactly one line
  whose own length is at least the limit.
\<close>

theorem size_invariant:
  "0 < max_length \<Longrightarrow>
   \<exists>runs. concat runs = splitlines_keepends text \<and>
          split_string_by_lines text max_length = Inr (map concat runs) \<and>
          (\<forall>r\<in>set runs. int (length (concat r)) < max_length \<or>
                          (\<exists>line. r = [line] \<and> max_length \<le> int (length line)))"
proof -
  assume pos: "0 < max_length"
  let ?lines = "splitlines_keepends text"
  let ?runs = "runs_from max_length [] [] ?lines"
  have ne: "[] \<notin> set ?lines" by (rule nonempty_splitlines_keepends)
  have a: "concat ?runs = ?lines" using pos ne by (rule runs_of_lines(1))
  have b: "split_string_by_lines text max_length = Inr (map concat ?runs)"
    using runs_of_lines(2)[OF pos ne] by (simp add: split_string_by_lines_eq)
  have v: "\<forall>r\<in>set ?runs. valid_run max_length r" using pos ne by (rule runs_of_lines(3))
  have c: "\<forall>r\<in>set ?runs. int (length (concat r)) < max_length \<or>
                          (\<exists>line. r = [line] \<and> max_length \<le> int (length line))"
  proof
    fix r assume "r \<in> set ?runs"
    then have "valid_run max_length r" using v by blast
    then show "int (length (concat r)) < max_length \<or>
                          (\<exists>line. r = [line] \<and> max_length \<le> int (length line))"
      by (cases r) (auto simp add: valid_run_def)
  qed
  show ?thesis using a b c by blast
qed

theorem size_invariant_witness:
  "split_string_by_lines [97, 10, 98, 99, 100, 101, 102, 10, 103, 10, 104, 10] 5
     = Inr [[97, 10], [98, 99, 100, 101, 102, 10], [103, 10, 104, 10]]
   \<and> (\<exists>runs. concat runs = splitlines_keepends [97, 10, 98, 99, 100, 101, 102, 10, 103, 10, 104, 10] \<and>
          split_string_by_lines [97, 10, 98, 99, 100, 101, 102, 10, 103, 10, 104, 10] 5
            = Inr (map concat runs) \<and>
          (\<forall>r\<in>set runs. int (length (concat r)) < 5 \<or>
                          (\<exists>line. r = [line] \<and> 5 \<le> int (length line))))"
proof -
  have pos: "(0::int) < 5" by simp
  have val: "split_string_by_lines [97, 10, 98, 99, 100, 101, 102, 10, 103, 10, 104, 10] 5
     = Inr [[97, 10], [98, 99, 100, 101, 102, 10], [103, 10, 104, 10]]"
    by (simp add: split_string_by_lines_def splitlines_keepends_def is_linebreak_def
        CR_def LF_def flush_def)
  show ?thesis
    using val size_invariant [OF pos, of "[97, 10, 98, 99, 100, 101, 102, 10, 103, 10, 104, 10]"]
    by blast
qed

text \<open>
  Claim C3 (oversized-line isolation). For every input and positive limit, a line whose
  length is at least the limit (a line of length exactly the limit included) is a run
  of its own, so it is emitted as a single chunk and never merged with its neighbours.
  In particular, with limit 4096, a short line, then a line of 5000 characters, then a
  short line give exactly the three chunks short line, long line, short line.
\<close>

theorem oversized_line_isolated:
  "0 < max_length \<Longrightarrow>
   (\<exists>runs. concat runs = splitlines_keepends text \<and>
           split_string_by_lines text max_length = Inr (map concat runs) \<and>
           (\<forall>r\<in>set runs. \<forall>line\<in>set r. max_length \<le> int (length line) \<longrightarrow> r = [line])) \<and>
   (\<forall>a big b.
      (\<forall>c\<in>set (a @ big @ b). \<not> is_linebreak c) \<and>
      length a + 1 < 4096 \<and> length big + 1 = 5000 \<and> length b + 1 < 4096 \<longrightarrow>
      split_string_by_lines (a @ [LF] @ big @ [LF] @ b @ [LF]) 4096
        = Inr [a @ [LF], big @ [LF], b @ [LF]])"
proof -
  assume pos: "0 < max_length"
  let ?lines = "splitlines_keepends text"
  let ?runs = "runs_from max_length [] [] ?lines"
  have ne: "[] \<notin> set ?lines" by (rule nonempty_splitlines_keepends)
  have a: "concat ?runs = ?lines" using pos ne by (rule runs_of_lines(1))
  have b: "split_string_by_lines text max_length = Inr (map concat ?runs)"
    using runs_of_lines(2)[OF pos ne] by (simp add: split_string_by_lines_eq)
  have v: "\<forall>r\<in>set ?runs. valid_run max_length r" using pos ne by (rule runs_of_lines(3))
  have c: "\<forall>r\<in>set ?runs. \<forall>line\<in>set r. max_length \<le> int (length line) \<longrightarrow> r = [line]"
  proof (intro ballI impI)
    fix r line
    assume r: "r \<in> set ?runs" and l: "line \<in> set r" and big: "max_length \<le> int (length line)"
    have "length line \<le> length (concat r)" using l by (rule member_le_length_concat)
    then have "\<not> int (length (concat r)) < max_length" using big by simp
    moreover have "valid_run max_length r" using v r by blast
    ultimately have "length r = 1" by (simp add: valid_run_def)
    then show "r = [line]" using l by (cases r) simp_all
  qed
  have general: "\<exists>runs. concat runs = ?lines \<and>
           split_string_by_lines text max_length = Inr (map concat runs) \<and>
           (\<forall>r\<in>set runs. \<forall>line\<in>set r. max_length \<le> int (length line) \<longrightarrow> r = [line])"
    using a b c by blast
  have example: "\<forall>a big b.
      (\<forall>c\<in>set (a @ big @ b). \<not> is_linebreak c) \<and>
      length a + 1 < 4096 \<and> length big + 1 = 5000 \<and> length b + 1 < 4096 \<longrightarrow>
      split_string_by_lines (a @ [LF] @ big @ [LF] @ b @ [LF]) 4096
        = Inr [a @ [LF], big @ [LF], b @ [LF]]"
  proof (intro allI impI)
    fix a big b :: pystr
    assume h: "(\<forall>c\<in>set (a @ big @ b). \<not> is_linebreak c) \<and>
      length a + 1 < 4096 \<and> length big + 1 = 5000 \<and> length b + 1 < 4096"
    have "\<forall>c\<in>set a. \<not> is_linebreak c" "\<forall>c\<in>set big. \<not> is_linebreak c"
      "\<forall>c\<in>set b. \<not> is_linebreak c" using h by auto
    moreover have "length a + 1 < 4096" "length big + 1 = 5000" "length b + 1 < 4096"
      using h by auto
    ultimately show "split_string_by_lines (a @ [LF] @ big @ [LF] @ b @ [LF]) 4096
        = Inr [a @ [LF], big @ [LF], b @ [LF]]"
      by (rule mixed_example)
  qed
  show ?thesis using general example by blast
qed


theorem oversized_line_isolated_witness:
  "(\<exists>runs. concat runs = splitlines_keepends [97, 10, 98, 99, 100, 101, 10, 102, 10] \<and>
           split_string_by_lines [97, 10, 98, 99, 100, 101, 10, 102, 10] 5 = Inr (map concat runs) \<and>
           (\<forall>r\<in>set runs. \<forall>line\<in>set r. 5 \<le> int (length line) \<longrightarrow> r = [line])) \<and>
   split_string_by_lines [97, 10, 98, 99, 100, 101, 10, 102, 10] 5
     = Inr [[97, 10], [98, 99, 100, 101, 10], [102, 10]] \<and>
   split_string_by_lines ([104, 105] @ [LF] @ replicate 4999 120 @ [LF] @ [98, 121, 101] @ [LF]) 4096
     = Inr [[104, 105] @ [LF], replicate 4999 120 @ [LF], [98, 121, 101] @ [LF]]"
proof -
  have pos: "(0::int) < 5" by simp
  note t = oversized_line_isolated [OF pos, of "[97, 10, 98, 99, 100, 101, 10, 102, 10]"]
  have general: "\<exists>runs. concat runs = splitlines_keepends [97, 10, 98, 99, 100, 101, 10, 102, 10] \<and>
           split_string_by_lines [97, 10, 98, 99, 100, 101, 10, 102, 10] 5 = Inr (map concat runs) \<and>
           (\<forall>r\<in>set runs. \<forall>line\<in>set r. 5 \<le> int (length line) \<longrightarrow> r = [line])"
    using t by (rule conjunct1)
  have val: "split_string_by_lines [97, 10, 98, 99, 100, 101, 10, 102, 10] 5
     = Inr [[97, 10], [98, 99, 100, 101, 10], [102, 10]]"
    by (simp add: split_string_by_lines_def splitlines_keepends_def is_linebreak_def
        CR_def LF_def flush_def)
  have hyps: "(\<forall>c\<in>set ([104, 105] @ replicate 4999 120 @ [98, 121, 101]). \<not> is_linebreak c) \<and>
      length [104, 105 :: nat] + 1 < 4096 \<and> length (replicate 4999 (120 :: nat)) + 1 = 5000 \<and>
      length [98, 121, 101 :: nat] + 1 < 4096"
    by (simp add: is_linebreak_def)
  have example: "split_string_by_lines
       ([104, 105] @ [LF] @ replicate 4999 120 @ [LF] @ [98, 121, 101] @ [LF]) 4096
     = Inr [[104, 105] @ [LF], replicate 4999 120 @ [LF], [98, 121, 101] @ [LF]]"
    using conjunct2 [OF t, rule_format, of "[104, 105]" "replicate 4999 120" "[98, 121, 101]"] hyps
    by blast
  show ?thesis using general val example by (intro conjI)
qed

text \<open>
  Claim C4 (lines are never split, order is preserved). For every input and positive
  limit, the chunk list is a partition of the line sequence of
  \<^verbatim>\<open>splitlines(keepends=True)\<close> into consecutive non-empty runs: each chunk is the
  concatenation of one or more consecutive whole lines, in the original order.
\<close>

theorem lines_never_split:
  "0 < max_length \<Longrightarrow>
   \<exists>runs. concat runs = splitlines_keepends text \<and>
          split_string_by_lines text max_length = Inr (map concat runs) \<and>
          (\<forall>r\<in>set runs. r \<noteq> [])"
proof -
  assume pos: "0 < max_length"
  let ?lines = "splitlines_keepends text"
  let ?runs = "runs_from max_length [] [] ?lines"
  have ne: "[] \<notin> set ?lines" by (rule nonempty_splitlines_keepends)
  have a: "concat ?runs = ?lines" using pos ne by (rule runs_of_lines(1))
  have b: "split_string_by_lines text max_length = Inr (map concat ?runs)"
    using runs_of_lines(2)[OF pos ne] by (simp add: split_string_by_lines_eq)
  have "\<forall>r\<in>set ?runs. concat r \<noteq> []" using pos ne by (rule runs_of_lines(4))
  then have c: "\<forall>r\<in>set ?runs. r \<noteq> []" by auto
  show ?thesis using a b c by blast
qed

theorem lines_never_split_witness:
  "split_string_by_lines [97, 13, 10, 98, 13, 99, 10, 10, 100, 101, 102, 103] 5
     = Inr [[97, 13, 10], [98, 13, 99, 10], [10], [100, 101, 102, 103]] \<and>
   splitlines_keepends [97, 13, 10, 98, 13, 99, 10, 10, 100, 101, 102, 103]
     = [[97, 13, 10], [98, 13], [99, 10], [10], [100, 101, 102, 103]] \<and>
   (\<exists>runs. concat runs = splitlines_keepends [97, 13, 10, 98, 13, 99, 10, 10, 100, 101, 102, 103] \<and>
          split_string_by_lines [97, 13, 10, 98, 13, 99, 10, 10, 100, 101, 102, 103] 5
            = Inr (map concat runs) \<and>
          (\<forall>r\<in>set runs. r \<noteq> []))"
proof -
  have pos: "(0::int) < 5" by simp
  have lines: "splitlines_keepends [97, 13, 10, 98, 13, 99, 10, 10, 100, 101, 102, 103]
     = [[97, 13, 10], [98, 13], [99, 10], [10], [100, 101, 102, 103]]"
    by (simp add: splitlines_keepends_def is_linebreak_def CR_def LF_def)
  have val: "split_string_by_lines [97, 13, 10, 98, 13, 99, 10, 10, 100, 101, 102, 103] 5
     = Inr [[97, 13, 10], [98, 13, 99, 10], [10], [100, 101, 102, 103]]"
    by (simp add: split_string_by_lines_def lines flush_def)
  show ?thesis
    using val lines
      lines_never_split [OF pos, of "[97, 13, 10, 98, 13, 99, 10, 10, 100, 101, 102, 103]"]
    by (intro conjI)
qed

text \<open>
  Claim C5 (non-empty chunks, empty input). For every positive limit no returned chunk
  is the empty string, and the empty input gives the empty list of chunks; in
  particular for the limit 4096.
\<close>

theorem no_empty_chunk:
  "0 < max_length \<Longrightarrow>
   (\<exists>chunks. split_string_by_lines text max_length = Inr chunks \<and> [] \<notin> set chunks) \<and>
   split_string_by_lines [] max_length = Inr [] \<and>
   split_string_by_lines [] 4096 = Inr []"
proof -
  assume pos: "0 < max_length"
  let ?lines = "splitlines_keepends text"
  let ?runs = "runs_from max_length [] [] ?lines"
  have ne: "[] \<notin> set ?lines" by (rule nonempty_splitlines_keepends)
  have b: "split_string_by_lines text max_length = Inr (map concat ?runs)"
    using runs_of_lines(2)[OF pos ne] by (simp add: split_string_by_lines_eq)
  have "\<forall>r\<in>set ?runs. concat r \<noteq> []" using pos ne by (rule runs_of_lines(4))
  then have c: "[] \<notin> set (map concat ?runs)" by auto
  have e: "split_string_by_lines [] m = Inr []" for m
    by (simp add: split_string_by_lines_def splitlines_keepends_def flush_def)
  show ?thesis using b c e by blast
qed

theorem no_empty_chunk_witness:
  "(\<exists>chunks. split_string_by_lines [10, 10, 97, 10] 2 = Inr chunks \<and> [] \<notin> set chunks) \<and>
   split_string_by_lines [10, 10, 97, 10] 2 = Inr [[10], [10], [97, 10]] \<and>
   split_string_by_lines [] 2 = Inr [] \<and>
   split_string_by_lines [] 4096 = Inr []"
proof -
  have pos: "(0::int) < 2" by simp
  have val: "split_string_by_lines [10, 10, 97, 10] 2 = Inr [[10], [10], [97, 10]]"
    by (simp add: split_string_by_lines_def splitlines_keepends_def is_linebreak_def
        CR_def LF_def flush_def)
  show ?thesis using val no_empty_chunk [OF pos, of "[10, 10, 97, 10]"] by blast
qed

text \<open>
  Claim C6 (minimal chunk count). For every input and positive limit, any two
  consecutive chunks have combined length at least the limit, so no two adjacent chunks
  could be merged into one chunk below the limit; and the number of chunks is minimal
  among the partitions of the line sequence into consecutive runs that respect the size
  rule (a run is below the limit, or is a single line at or above it).
\<close>

theorem chunk_count_minimal:
  "0 < max_length \<Longrightarrow>
   \<exists>chunks. split_string_by_lines text max_length = Inr chunks \<and>
      (\<forall>i. Suc i < length chunks \<longrightarrow>
           max_length \<le> int (length (chunks ! i)) + int (length (chunks ! Suc i))) \<and>
      (\<forall>runs. concat runs = splitlines_keepends text \<and> (\<forall>r\<in>set runs. valid_run max_length r)
           \<longrightarrow> length chunks \<le> length runs)"
proof -
  assume pos: "0 < max_length"
  let ?lines = "splitlines_keepends text"
  let ?chunks = "chunks_from max_length [] [] ?lines"
  have a: "split_string_by_lines text max_length = Inr ?chunks"
    by (rule split_string_by_lines_eq)
  have "adj_inv max_length [] []" by (simp add: adj_inv_def)
  then have succ: "successively (full_pair max_length) ?chunks" by (rule adj_chunks_from)
  have b: "\<forall>i. Suc i < length ?chunks \<longrightarrow>
           max_length \<le> int (length (?chunks ! i)) + int (length (?chunks ! Suc i))"
  proof (intro allI impI)
    fix i assume "Suc i < length ?chunks"
    with succ have "full_pair max_length (?chunks ! i) (?chunks ! Suc i)"
      by (rule successively_nth)
    then show "max_length \<le> int (length (?chunks ! i)) + int (length (?chunks ! Suc i))"
      by (simp add: full_pair_def)
  qed
  have len: "length ?chunks = chunk_count max_length 0 (map length ?lines)"
    using length_chunks_from[of max_length "[]" "[]" ?lines] by simp
  have c: "\<forall>runs. concat runs = ?lines \<and> (\<forall>r\<in>set runs. valid_run max_length r)
           \<longrightarrow> length ?chunks \<le> length runs"
  proof (intro allI impI)
    fix runs assume h: "concat runs = ?lines \<and> (\<forall>r\<in>set runs. valid_run max_length r)"
    then have "\<forall>r\<in>set runs. valid_run max_length r" by simp
    with pos have "chunk_count max_length 0 (map length (concat runs)) \<le> length runs"
      by (rule chunk_count_le_partition)
    then show "length ?chunks \<le> length runs" using h len by simp
  qed
  show ?thesis using a b c by blast
qed

theorem chunk_count_minimal_witness:
  "split_string_by_lines [97, 10, 98, 10, 99, 10, 100, 10, 101, 10] 5
     = Inr [[97, 10, 98, 10], [99, 10, 100, 10], [101, 10]] \<and>
   (\<exists>chunks. split_string_by_lines [97, 10, 98, 10, 99, 10, 100, 10, 101, 10] 5 = Inr chunks \<and>
      (\<forall>i. Suc i < length chunks \<longrightarrow>
           5 \<le> int (length (chunks ! i)) + int (length (chunks ! Suc i))) \<and>
      (\<forall>runs. concat runs = splitlines_keepends [97, 10, 98, 10, 99, 10, 100, 10, 101, 10] \<and>
           (\<forall>r\<in>set runs. valid_run 5 r)
           \<longrightarrow> length chunks \<le> length runs))"
proof -
  have pos: "(0::int) < 5" by simp
  have val: "split_string_by_lines [97, 10, 98, 10, 99, 10, 100, 10, 101, 10] 5
     = Inr [[97, 10, 98, 10], [99, 10, 100, 10], [101, 10]]"
    by (simp add: split_string_by_lines_def splitlines_keepends_def is_linebreak_def
        CR_def LF_def flush_def)
  show ?thesis
    using val chunk_count_minimal [OF pos, of "[97, 10, 98, 10, 99, 10, 100, 10, 101, 10]"]
    by (intro conjI)
qed

text \<open>
  Claim C7 (exact-boundary split), as stated: the lines \<^verbatim>\<open>"a"*2000 + "\n"\<close> and
  \<^verbatim>\<open>"b"*2096 + "\n"\<close> have combined length exactly 4096 and are split into two
  chunks at limit 4096. The two lines have 2001 and 2097 characters, so the combined
  length is 4098: the statement about the length is false.
\<close>

theorem exact_boundary_counterexample:
  "\<not> (length (replicate 2000 (97::nat) @ [LF]) + length (replicate 2096 (98::nat) @ [LF]) = 4096 \<and>
      split_string_by_lines (replicate 2000 97 @ [LF] @ replicate 2096 98 @ [LF]) 4096
        = Inr [replicate 2000 97 @ [LF], replicate 2096 98 @ [LF]])"
  by simp

text \<open>
  Claim C7, amended. With limit 4096 the lines \<^verbatim>\<open>"a"*2000 + "\n"\<close> and
  \<^verbatim>\<open>"b"*2096 + "\n"\<close> have combined length 4098, which is at least the limit,
  and the result is two chunks, each one of the lines. In general, for a positive limit,
  two consecutive lines whose combined length equals the limit exactly are never in the
  same chunk (the comparison is \<open>\<ge>\<close>); an input of exactly two such lines gives exactly
  the two lines as chunks.
\<close>

theorem exact_boundary_split:
  "0 < max_length \<Longrightarrow>
   (\<exists>runs. concat runs = splitlines_keepends text \<and>
           split_string_by_lines text max_length = Inr (map concat runs) \<and>
           (\<forall>r\<in>set runs. \<forall>i. Suc i < length r \<longrightarrow>
                int (length (r ! i)) + int (length (r ! Suc i)) \<noteq> max_length)) \<and>
   (splitlines_keepends text = [l1, l2] \<and> int (length l1) + int (length l2) = max_length \<longrightarrow>
      split_string_by_lines text max_length = Inr [l1, l2]) \<and>
   length (replicate 2000 (97::nat) @ [LF]) + length (replicate 2096 (98::nat) @ [LF]) = 4098 \<and>
   split_string_by_lines (replicate 2000 97 @ [LF] @ replicate 2096 98 @ [LF]) 4096
     = Inr [replicate 2000 97 @ [LF], replicate 2096 98 @ [LF]]"
proof -
  assume pos: "0 < max_length"
  let ?lines = "splitlines_keepends text"
  let ?runs = "runs_from max_length [] [] ?lines"
  have ne: "[] \<notin> set ?lines" by (rule nonempty_splitlines_keepends)
  have a: "concat ?runs = ?lines" using pos ne by (rule runs_of_lines(1))
  have b: "split_string_by_lines text max_length = Inr (map concat ?runs)"
    using runs_of_lines(2)[OF pos ne] by (simp add: split_string_by_lines_eq)
  have v: "\<forall>r\<in>set ?runs. valid_run max_length r" using pos ne by (rule runs_of_lines(3))
  have c: "\<forall>r\<in>set ?runs. \<forall>i. Suc i < length r \<longrightarrow>
                int (length (r ! i)) + int (length (r ! Suc i)) \<noteq> max_length"
  proof (intro ballI allI impI)
    fix r i
    assume r: "r \<in> set ?runs" and i: "Suc i < length r"
    have "valid_run max_length r" using v r by blast
    then have "int (length (concat r)) < max_length" using i by (simp add: valid_run_def)
    moreover have "length (r ! i) + length (r ! Suc i) \<le> length (concat r)"
      using i by (rule pair_le_length_concat)
    ultimately show "int (length (r ! i)) + int (length (r ! Suc i)) \<noteq> max_length" by simp
  qed
  have general: "\<exists>runs. concat runs = ?lines \<and>
           split_string_by_lines text max_length = Inr (map concat runs) \<and>
           (\<forall>r\<in>set runs. \<forall>i. Suc i < length r \<longrightarrow>
                int (length (r ! i)) + int (length (r ! Suc i)) \<noteq> max_length)"
    using a b c by blast
  have two: "?lines = [l1, l2] \<and> int (length l1) + int (length l2) = max_length \<longrightarrow>
      split_string_by_lines text max_length = Inr [l1, l2]"
  proof
    assume h: "?lines = [l1, l2] \<and> int (length l1) + int (length l2) = max_length"
    then have "l1 \<noteq> []" "l2 \<noteq> []" using ne by auto
    with pos have "chunks_from max_length [] [] [l1, l2] = [l1, l2]"
      using h by (intro two_lines_at_limit) simp_all
    then show "split_string_by_lines text max_length = Inr [l1, l2]"
      using h by (simp add: split_string_by_lines_eq)
  qed
  have len: "length (replicate 2000 (97::nat) @ [LF]) + length (replicate 2096 (98::nat) @ [LF]) = 4098"
    by simp
  have lines: "splitlines_keepends (replicate 2000 97 @ LF # replicate 2096 98 @ [LF])
      = [replicate 2000 97 @ [LF], replicate 2096 98 @ [LF]]"
    by (rule splitlines_two_lines) (simp_all add: is_linebreak_def)
  have example: "split_string_by_lines (replicate 2000 97 @ [LF] @ replicate 2096 98 @ [LF]) 4096
     = Inr [replicate 2000 97 @ [LF], replicate 2096 98 @ [LF]]"
    by (simp add: split_string_by_lines_eq lines chunks_from_Cons chunks_from_Nil flush_def)
  show ?thesis using general two len example by (intro conjI)
qed

theorem exact_boundary_split_witness:
  "(\<exists>runs. concat runs = splitlines_keepends [97, 98, 10, 99, 10, 100, 10] \<and>
           split_string_by_lines [97, 98, 10, 99, 10, 100, 10] 5 = Inr (map concat runs) \<and>
           (\<forall>r\<in>set runs. \<forall>i. Suc i < length r \<longrightarrow>
                int (length (r ! i)) + int (length (r ! Suc i)) \<noteq> 5)) \<and>
   split_string_by_lines [97, 98, 10, 99, 10, 100, 10] 5 = Inr [[97, 98, 10], [99, 10, 100, 10]] \<and>
   split_string_by_lines [97, 98, 10, 99, 10] 5 = Inr [[97, 98, 10], [99, 10]]"
proof -
  have pos: "(0::int) < 5" by simp
  have val: "split_string_by_lines [97, 98, 10, 99, 10, 100, 10] 5
      = Inr [[97, 98, 10], [99, 10, 100, 10]]"
    by (simp add: split_string_by_lines_def splitlines_keepends_def is_linebreak_def
        CR_def LF_def flush_def)
  have general: "\<exists>runs. concat runs = splitlines_keepends [97, 98, 10, 99, 10, 100, 10] \<and>
           split_string_by_lines [97, 98, 10, 99, 10, 100, 10] 5 = Inr (map concat runs) \<and>
           (\<forall>r\<in>set runs. \<forall>i. Suc i < length r \<longrightarrow>
                int (length (r ! i)) + int (length (r ! Suc i)) \<noteq> 5)"
    using exact_boundary_split [OF pos, of "[97, 98, 10, 99, 10, 100, 10]"] by (rule conjunct1)
  have lines: "splitlines_keepends [97, 98, 10, 99, 10] = [[97, 98, 10], [99, 10]]"
    by (simp add: splitlines_keepends_def is_linebreak_def CR_def LF_def)
  have two: "split_string_by_lines [97, 98, 10, 99, 10] 5 = Inr [[97, 98, 10], [99, 10]]"
    using exact_boundary_split [OF pos, of "[97, 98, 10, 99, 10]" "[97, 98, 10]" "[99, 10]"] lines
    by simp
  show ?thesis using general val two by (intro conjI)
qed

text \<open>
  Claim C9 (precondition failure), as stated: for a limit that is not positive the
  function fails with a precondition error. The code has no check of the limit: on
  the input \<^verbatim>\<open>"x"\<close> with limit 0 it returns the list with the single chunk
  \<^verbatim>\<open>"x"\<close>.
\<close>

theorem nonpositive_limit_counterexample:
  "split_string_by_lines [120] 0 = Inr [[120]] \<and>
   \<not> (split_string_by_lines [120] 0 = Inl PreconditionError)"
  by (simp add: split_string_by_lines_def splitlines_keepends_def is_linebreak_def flush_def)

text \<open>
  Claim C9, amended. For every limit that is not positive the function does not fail:
  it returns a list of chunks, and no error of any kind originates in the chunker.
\<close>

theorem nonpositive_limit_no_error:
  "max_length \<le> 0 \<Longrightarrow>
   (\<exists>chunks. split_string_by_lines text max_length = Inr chunks) \<and>
   split_string_by_lines text max_length \<noteq> Inl e"
  by (simp add: split_string_by_lines_eq)

theorem nonpositive_limit_no_error_witness:
  "(\<exists>chunks. split_string_by_lines [97, 10, 98] (- 3) = Inr chunks) \<and>
   split_string_by_lines [97, 10, 98] (- 3) \<noteq> Inl PreconditionError"
proof -
  have np: "(- 3 :: int) \<le> 0" by simp
  show ?thesis using nonpositive_limit_no_error [OF np, of "[97, 10, 98]" PreconditionError] .
qed

text \<open>
  Claim C10 (behaviour for a limit that is not positive). For every input string and
  every limit at most 0 the function returns exactly the line list of the input with
  terminators kept: every line takes the oversized-line branch and is its own chunk.
\<close>

theorem nonpositive_limit_lines:
  "max_length \<le> 0 \<Longrightarrow>
   split_string_by_lines text max_length = Inr (splitlines_keepends text)"
  by (simp add: split_string_by_lines_eq chunks_from_nonpositive)

theorem nonpositive_limit_lines_witness:
  "split_string_by_lines [97, 10, 98, 13, 10, 99] 0 = Inr [[97, 10], [98, 13, 10], [99]]"
proof -
  have np: "(0 :: int) \<le> 0" by simp
  have lines: "splitlines_keepends [97, 10, 98, 13, 10, 99] = [[97, 10], [98, 13, 10], [99]]"
    by (simp add: splitlines_keepends_def is_linebreak_def CR_def LF_def)
  show ?thesis using nonpositive_limit_lines [OF np, of "[97, 10, 98, 13, 10, 99]"] lines by simp
qed

end
